theory Spec2Isabelle
  imports Main "HOL-Library.Word"
begin

section \<open>JavaScript strings\<close>

text \<open>
  A JavaScript string is a sequence of UTF-16 code units; \<open>length\<close>, \<open>split\<close>,
  \<open>includes\<close>, \<open>trim\<close> and a regular expression without the \<open>u\<close> flag all work on
  code units. \<open>js\<close> embeds an ASCII literal of the source.
\<close>

type_synonym cu = "16 word"
type_synonym jsstring = "cu list"

definition js :: "string \<Rightarrow> jsstring" where
  "js s = map of_char s"

text \<open>
  The characters that \<open>\s\<close> matches and that \<open>trim()\<close> strips: WhiteSpace (TAB, VT, FF,
  SP, NBSP, ZWNBSP and the category Zs) and LineTerminator (LF, CR, LS, PS).
\<close>

definition is_line_terminator :: "cu \<Rightarrow> bool" where
  "is_line_terminator c = (c = 0x0A \<or> c = 0x0D \<or> c = 0x2028 \<or> c = 0x2029)"

definition is_white_space :: "cu \<Rightarrow> bool" where
  "is_white_space c =
     (c = 0x09 \<or> c = 0x0B \<or> c = 0x0C \<or> c = 0x20 \<or> c = 0xA0 \<or> c = 0x1680 \<or>
      (0x2000 \<le> c \<and> c \<le> 0x200A) \<or> c = 0x202F \<or> c = 0x205F \<or> c = 0x3000 \<or>
      c = 0xFEFF \<or> is_line_terminator c)"

definition is_digit :: "cu \<Rightarrow> bool" where
  "is_digit c = (0x30 \<le> c \<and> c \<le> 0x39)"

text \<open>\<open>String.prototype.trim\<close>.\<close>

definition trim :: "jsstring \<Rightarrow> jsstring" where
  "trim s = rev (dropWhile is_white_space (rev (dropWhile is_white_space s)))"

text \<open>
  \<open>s.split('\n')\<close>: the pieces between the line feeds; the empty string gives one empty
  piece. The result is never empty, so the \<open>[]\<close> branch below is not reached.
\<close>

fun split_nl :: "jsstring \<Rightarrow> jsstring list" where
  "split_nl [] = [[]]"
| "split_nl (c # cs) =
     (if c = 0x0A then [] # split_nl cs
      else (case split_nl cs of l # ls \<Rightarrow> (c # l) # ls | [] \<Rightarrow> [[c]]))"

text \<open>\<open>lines.join(' ')\<close>.\<close>

fun join_sp :: "jsstring list \<Rightarrow> jsstring" where
  "join_sp [] = []"
| "join_sp [l] = l"
| "join_sp (l # ls) = l @ 0x20 # join_sp ls"

section \<open>Regular expressions\<close>

text \<open>
  The regular expressions of \<open>popup.js\<close> are sequences of single-character classes, each
  taken once or under a greedy \<open>+\<close> or \<open>*\<close>. A literal character is compared
  case-insensitively (flag \<open>i\<close>): both sides are canonicalised, which for the ASCII
  literals of the source is ASCII upper-casing (a code unit from 128 on never
  canonicalises to an ASCII one).
\<close>

datatype cls = Lit cu | Digit | Dot | Space

datatype quant = One | Plus | Star

type_synonym regex = "(cls \<times> quant) list"

definition canonicalize :: "cu \<Rightarrow> cu" where
  "canonicalize c = (if 0x61 \<le> c \<and> c \<le> 0x7A then c - 0x20 else c)"

fun matches :: "cls \<Rightarrow> cu \<Rightarrow> bool" where
  "matches (Lit a) c = (canonicalize c = canonicalize a)"
| "matches Digit c = is_digit c"
| "matches Dot c = (\<not> is_line_terminator c)"
| "matches Space c = is_white_space c"

text \<open>
  The backtracking matcher, anchored at the start of \<open>s\<close>: the length of the match, or
  \<open>None\<close>. A greedy quantifier first takes one more character and falls back to the rest
  of the pattern when that fails.
\<close>

fun rmatch :: "regex \<Rightarrow> jsstring \<Rightarrow> nat option" where
  "rmatch [] s = Some 0"
| "rmatch ((k, One) # p) [] = None"
| "rmatch ((k, One) # p) (c # cs) =
     (if matches k c then map_option Suc (rmatch p cs) else None)"
| "rmatch ((k, Plus) # p) [] = None"
| "rmatch ((k, Plus) # p) (c # cs) =
     (if matches k c then map_option Suc (rmatch ((k, Star) # p) cs) else None)"
| "rmatch ((k, Star) # p) [] = rmatch p []"
| "rmatch ((k, Star) # p) (c # cs) =
     (if matches k c
      then (case rmatch ((k, Star) # p) cs of
              Some n \<Rightarrow> Some (Suc n)
            | None \<Rightarrow> rmatch p (c # cs))
      else rmatch p (c # cs))"

text \<open>
  \<open>s.replace(p, r)\<close> for a global regular expression: scan from the left; a match is
  replaced and the scan goes on behind it; an empty match puts \<open>r\<close> in and moves one
  character on.
\<close>

fun replace_global :: "regex \<Rightarrow> jsstring \<Rightarrow> jsstring \<Rightarrow> jsstring" where
  "replace_global p r [] = (case rmatch p [] of Some _ \<Rightarrow> r | None \<Rightarrow> [])"
| "replace_global p r (c # cs) =
     (case rmatch p (c # cs) of
        None \<Rightarrow> c # replace_global p r cs
      | Some 0 \<Rightarrow> r @ c # replace_global p r cs
      | Some (Suc n) \<Rightarrow> r @ replace_global p r (drop n cs))"

section \<open>The text cleaner\<close>

definition lit :: "string \<Rightarrow> regex" where
  "lit s = map (\<lambda>c. (Lit (of_char c), One)) s"

definition noisePatterns :: "regex list" where
  "noisePatterns =
     [ [(Digit, One), (Lit 0x2E, One), (Digit, One)] @ lit '' out of 5 stars'',
       lit ''Reviewed in India on '' @ [(Dot, Star)],
       lit ''Reviewed in the United Arab Emirates on '' @ [(Dot, Star)],
       lit ''Verified Purchase'',
       lit ''Helpful'',
       lit ''Report'',
       (Digit, Plus) # lit '' people found this helpful'',
       lit ''One person found this helpful'' ]"

definition stripNoise :: "jsstring \<Rightarrow> jsstring" where
  "stripNoise text = foldl (\<lambda>cleanedText pattern. replace_global pattern [] cleanedText) text noisePatterns"

definition keep_line :: "jsstring \<Rightarrow> bool" where
  "keep_line line = (let trimmed = trim line in length trimmed > 15 \<and> 0x20 \<in> set trimmed)"

definition collapse_ws :: "jsstring \<Rightarrow> jsstring" where
  "collapse_ws s = replace_global [(Space, One), (Space, Plus)] [0x20] s"

definition cleanReviewText :: "jsstring \<Rightarrow> jsstring" where
  "cleanReviewText text =
     (if text = [] then []
      else let cleanedText = stripNoise text;
               lines = split_nl cleanedText;
               cleanLines = filter keep_line lines
           in trim (collapse_ws (join_sp cleanLines)))"

section \<open>The document\<close>

text \<open>
  An element shows two texts: \<open>innerText\<close> (the rendered text; \<open>None\<close> where the
  property is undefined, as on an element that is not an HTML element) and
  \<open>textContent\<close> (\<open>None\<close> for null). A query either throws (a selector the page's engine
  rejects) or returns; \<open>querySelectorAll\<close> returns a node list (the source guards the
  call with \<open>?.\<close>, so a nullish result is \<open>None\<close>), \<open>querySelector\<close> the first match or
  null.
\<close>

record element =
  innerText :: "jsstring option"
  textContent :: "jsstring option"

datatype 'a completion = Throws | Returns 'a

record document =
  querySelectorAll :: "jsstring \<Rightarrow> element list option completion"
  querySelector :: "jsstring \<Rightarrow> element option completion"
  href :: jsstring

text \<open>\<open>a || b\<close> on values that are a string, undefined or null.\<close>

definition truthy :: "jsstring option \<Rightarrow> bool" where
  "truthy v = (case v of None \<Rightarrow> False | Some t \<Rightarrow> t \<noteq> [])"

definition or_else :: "jsstring option \<Rightarrow> jsstring option \<Rightarrow> jsstring option" where
  "or_else a b = (if truthy a then a else b)"

text \<open>\<open>(el.innerText || el.textContent || '').trim()\<close>\<close>

definition rawText :: "element \<Rightarrow> jsstring" where
  "rawText el =
     trim (case or_else (or_else (innerText el) (textContent el)) (Some []) of
             Some t \<Rightarrow> t | None \<Rightarrow> [])"

section \<open>The collector\<close>

record gather_state =
  out :: "jsstring list"
  uniqueTexts :: "jsstring set"

text \<open>The body of the inner \<open>forEach\<close>, for one element.\<close>

definition visit :: "gather_state \<Rightarrow> element \<Rightarrow> gather_state" where
  "visit st el =
     (let cleanedText = cleanReviewText (rawText el)
      in if cleanedText \<noteq> [] \<and> length cleanedText > 20 \<and> cleanedText \<notin> uniqueTexts st
         then st\<lparr>uniqueTexts := insert cleanedText (uniqueTexts st),
                 out := out st @ [cleanedText]\<rparr>
         else st)"

text \<open>The body of the outer \<open>forEach\<close>: the \<open>try\<close> block for one selector.\<close>

definition try_selector :: "document \<Rightarrow> gather_state \<Rightarrow> jsstring \<Rightarrow> gather_state" where
  "try_selector doc st sel =
     (case querySelectorAll doc sel of
        Throws \<Rightarrow> st
      | Returns None \<Rightarrow> st
      | Returns (Some els) \<Rightarrow> foldl visit st els)"

definition gatherTextFromSelectors :: "jsstring list \<Rightarrow> document \<Rightarrow> jsstring list" where
  "gatherTextFromSelectors selectors doc =
     out (foldl (try_selector doc) \<lparr>out = [], uniqueTexts = {}\<rparr> selectors)"

section \<open>The title and the result of the injected function\<close>

text \<open>
  The \<open>for\<close> loop over the title selectors: the first selector whose element has a truthy
  text ends the loop; a selector that throws, matches nothing or matches an element
  without text is passed over. After the last selector the title is still \<open>''\<close>.
\<close>

fun resolveTitle :: "jsstring list \<Rightarrow> document \<Rightarrow> jsstring" where
  "resolveTitle [] doc = []"
| "resolveTitle (s # ss) doc =
     (case querySelector doc s of
        Throws \<Rightarrow> resolveTitle ss doc
      | Returns None \<Rightarrow> resolveTitle ss doc
      | Returns (Some el) \<Rightarrow>
          (case or_else (innerText el) (textContent el) of
             Some t \<Rightarrow> if t \<noteq> [] then trim t else resolveTitle ss doc
           | None \<Rightarrow> resolveTitle ss doc))"

definition reviewSelectors :: "jsstring list" where
  \<open>reviewSelectors =
     [ js ''#cm_cr-review_list .review-text-content span'',
       js ''[data-hook="review-body"] span'',
       js ''.review-text'',
       js ''.a-section.review'',
       js ''.q4Rxxz'',
       js ''._16PBlm'',
       js ''.comment'',
       js ''.review'' ]\<close>

definition titleSelectors :: "jsstring list" where
  "titleSelectors = [js ''#productTitle'', js ''.B_NuCI'', js ''h1'', js ''.yhB1nd'', js ''.itvQmW'']"

record scraped =
  reviews :: "jsstring list"
  title :: jsstring
  url :: jsstring

text \<open>The function injected into the page (the extraction pass).\<close>

definition extraction_pass :: "document \<Rightarrow> scraped" where
  "extraction_pass doc =
     (let reviews = gatherTextFromSelectors reviewSelectors doc;
          title = resolveTitle titleSelectors doc
      in \<lparr>reviews = take 30 reviews, title = title, url = href doc\<rparr>)"

text \<open>
  \<open>queryActiveTabAndScrape\<close> and the check \<open>summarize\<close> makes on its result. The host is
  a parameter: the active tab's document, if there is a tab and the script could run in
  it.
\<close>

datatype error = NoActiveTab | ScrapeFailed | NoReviewsFound

definition queryActiveTabAndScrape :: "document option option \<Rightarrow> error + scraped" where
  "queryActiveTabAndScrape tab =
     (case tab of
        None \<Rightarrow> Inl NoActiveTab
      | Some None \<Rightarrow> Inl ScrapeFailed
      | Some (Some doc) \<Rightarrow> Inr (extraction_pass doc))"

definition summarize_payload :: "document option option \<Rightarrow> error + scraped" where
  "summarize_payload tab =
     (case queryActiveTabAndScrape tab of
        Inl e \<Rightarrow> Inl e
      | Inr scraped \<Rightarrow>
          if reviews scraped = [] then Inl NoReviewsFound
          else Inr \<lparr>reviews = reviews scraped, title = title scraped, url = url scraped\<rparr>)"

section \<open>The collector and the title resolver, as the specification words them\<close>

text \<open>The cleaned texts of the elements a selector matches, in document order.\<close>

definition matched_elements :: "document \<Rightarrow> jsstring \<Rightarrow> element list" where
  "matched_elements doc sel =
     (case querySelectorAll doc sel of Returns (Some els) \<Rightarrow> els | _ \<Rightarrow> [])"

definition candidates_of :: "document \<Rightarrow> jsstring \<Rightarrow> jsstring list" where
  "candidates_of doc sel = map (\<lambda>el. cleanReviewText (rawText el)) (matched_elements doc sel)"

text \<open>Discovery order: selector-list order, then document order within a selector.\<close>

definition discovery_order :: "jsstring list \<Rightarrow> document \<Rightarrow> jsstring list" where
  "discovery_order selectors doc = concat (map (candidates_of doc) selectors)"

text \<open>The first occurrence of every entry, in order.\<close>

function first_occurrences :: "'a list \<Rightarrow> 'a list" where
  "first_occurrences [] = []"
| "first_occurrences (x # xs) = x # first_occurrences (filter (\<lambda>y. y \<noteq> x) xs)"
  by pat_completeness auto
termination
  by (relation "measure length") (auto simp: less_Suc_eq_le)

text \<open>The accepted candidates: longer than 20 and not seen before.\<close>

definition accepted :: "jsstring list \<Rightarrow> document \<Rightarrow> jsstring list" where
  "accepted selectors doc =
     first_occurrences (filter (\<lambda>t. length t > 20) (discovery_order selectors doc))"

text \<open>The step of the collector on a cleaned text (\<open>visit\<close> after cleaning).\<close>

definition visit_text :: "gather_state \<Rightarrow> jsstring \<Rightarrow> gather_state" where
  "visit_text st t =
     (if t \<noteq> [] \<and> length t > 20 \<and> t \<notin> uniqueTexts st
      then st\<lparr>uniqueTexts := insert t (uniqueTexts st), out := out st @ [t]\<rparr>
      else st)"

text \<open>
  The text a title selector yields: the rendered text if it is not empty, else the raw
  text content if that is not empty; nothing when the query throws, matches no element
  or the element has no text.
\<close>

definition title_text :: "document \<Rightarrow> jsstring \<Rightarrow> jsstring option" where
  "title_text doc s =
     (case querySelector doc s of
        Returns (Some el) \<Rightarrow>
          (if truthy (innerText el) then innerText el
           else if truthy (textContent el) then textContent el
           else None)
      | _ \<Rightarrow> None)"

definition first_title :: "jsstring list \<Rightarrow> document \<Rightarrow> jsstring" where
  "first_title selectors doc =
     (case List.map_filter (title_text doc) selectors of [] \<Rightarrow> [] | t # _ \<Rightarrow> trim t)"

subsection \<open>Two pages\<close>

definition text_element :: "string \<Rightarrow> element" where
  "text_element t = \<lparr>innerText = Some (js t), textContent = Some (js t)\<rparr>"

text \<open>
  A product page: two review elements with the same text and a short one under
  \<open>.review\<close>, a selector the engine rejects (\<open>.comment\<close>, \<open>.B_NuCI\<close>), and the title in
  the raw text content of \<open>h1\<close> only.
\<close>

definition product_page :: document where
  "product_page =
     \<lparr>querySelectorAll = (\<lambda>s.
          if s = js ''.review'' then
            Returns (Some [text_element ''Great battery life and build quality overall'',
                           text_element ''Great battery life and build quality overall'',
                           text_element ''Too short''])
          else if s = js ''.comment'' then Throws
          else Returns (Some [])),
      querySelector = (\<lambda>s.
          if s = js ''h1'' then
            Returns (Some \<lparr>innerText = None, textContent = Some (js '' Wireless Mouse '')\<rparr>)
          else if s = js ''.B_NuCI'' then Throws
          else Returns None),
      href = js ''https://shop.example/item/1''\<rparr>"

text \<open>A page on which no review selector matches anything.\<close>

definition bare_page :: document where
  "bare_page =
     \<lparr>querySelectorAll = (\<lambda>s. Returns (Some [])),
      querySelector = (\<lambda>s. if s = js ''h1'' then Returns (Some (text_element ''Wireless Mouse''))
                          else Returns None),
      href = js ''https://shop.example/item/2''\<rparr>"

section \<open>Occurrences, and the cleaner as the specification words it\<close>

text \<open>A pattern occurs in a text when it matches at some position of it.\<close>

fun occurs :: "regex \<Rightarrow> jsstring \<Rightarrow> bool" where
  "occurs p [] = (rmatch p [] \<noteq> None)"
| "occurs p (c # cs) = (rmatch p (c # cs) \<noteq> None \<or> occurs p cs)"

text \<open>
  The stretches of text a deleting pass retains: the text between the start, the
  deleted matches and the end, in order. The pass returns them put together.
\<close>

fun retained :: "regex \<Rightarrow> jsstring \<Rightarrow> jsstring list" where
  "retained p [] = [[]]"
| "retained p (c # cs) =
     (case rmatch p (c # cs) of
        Some (Suc n) \<Rightarrow> [] # retained p (drop n cs)
      | _ \<Rightarrow> (case retained p cs of k # ks \<Rightarrow> (c # k) # ks | [] \<Rightarrow> [[c]]))"

text \<open>Every run of two or more whitespace characters becomes one space.\<close>

function collapse_runs :: "jsstring \<Rightarrow> jsstring" where
  "collapse_runs [] = []"
| "collapse_runs [c] = [c]"
| "collapse_runs (c # d # cs) =
     (if is_white_space c \<and> is_white_space d
      then 0x20 # collapse_runs (dropWhile is_white_space cs)
      else c # collapse_runs (d # cs))"
  by pat_completeness auto
termination
  by (relation "measure length") (auto simp: less_Suc_eq_le intro: le_SucI length_dropWhile_le)

text \<open>Every run of whitespace, also of one character, becomes one space.\<close>

function collapse_every_run :: "jsstring \<Rightarrow> jsstring" where
  "collapse_every_run [] = []"
| "collapse_every_run (c # cs) =
     (if is_white_space c then 0x20 # collapse_every_run (dropWhile is_white_space cs)
      else c # collapse_every_run cs)"
  by pat_completeness auto
termination
  by (relation "measure length") (auto simp: less_Suc_eq_le intro: length_dropWhile_le)

text \<open>
  The retained lines of a noise-stripped text: trimmed length above 15 and a space in
  the trimmed line.
\<close>

definition retained_lines :: "jsstring \<Rightarrow> jsstring list" where
  "retained_lines t = filter (\<lambda>l. length (trim l) > 15 \<and> 0x20 \<in> set (trim l)) (split_nl t)"

text \<open>A pattern that begins with a character taken at least once; it matches no empty text.\<close>

definition solid :: "regex \<Rightarrow> bool" where
  "solid p = (case p of [] \<Rightarrow> False | (k, q) # _ \<Rightarrow> q \<noteq> Star)"

text \<open>
  The cleaner with every run of whitespace, also a single character, turned into one
  space.
\<close>

definition clean_every_run :: "jsstring \<Rightarrow> jsstring" where
  "clean_every_run s = trim (collapse_every_run (join_sp (retained_lines (stripNoise s))))"

text \<open>A pattern of single characters, each taken once.\<close>

definition fixed :: "cls list \<Rightarrow> regex" where
  "fixed ks = map (\<lambda>k. (k, One)) ks"

text \<open>
  A test that no code unit is in both classes, and with it a test that a fixed pattern
  cannot overlap a shifted copy of itself: two occurrences never share a character.
\<close>

fun disjoint_cls :: "cls \<Rightarrow> cls \<Rightarrow> bool" where
  "disjoint_cls (Lit a) (Lit b) = (canonicalize a \<noteq> canonicalize b)"
| "disjoint_cls (Lit a) Digit = (\<not> is_digit (canonicalize a))"
| "disjoint_cls Digit (Lit a) = (\<not> is_digit (canonicalize a))"
| "disjoint_cls _ _ = False"

definition border_free :: "cls list \<Rightarrow> bool" where
  "border_free ks =
     list_all (\<lambda>j. list_ex (\<lambda>(a, b). disjoint_cls a b) (zip (drop j ks) ks)) [1..<length ks]"

text \<open>The classes of a literal, and of the star-rating pattern.\<close>

definition lit_cls :: "string \<Rightarrow> cls list" where
  "lit_cls s = map (\<lambda>c. Lit (of_char c)) s"

definition star_cls :: "cls list" where
  "star_cls = [Digit, Lit 0x2E, Digit] @ lit_cls '' out of 5 stars''"

text \<open>
  A test that the fixed pattern \<open>as\<close> cannot match at any position inside a text that
  the fixed pattern \<open>bs\<close> matches: at every shift some character is in conflict.
\<close>

definition cross_free :: "cls list \<Rightarrow> cls list \<Rightarrow> bool" where
  "cross_free as bs =
     list_all (\<lambda>j. list_ex (\<lambda>(a, b). disjoint_cls a b) (zip as (drop j bs))) [0..<length bs]"

section \<open>Properties of the collector\<close>

lemma set_first_occurrences: "set (first_occurrences xs) = set xs"
  by (induction xs rule: first_occurrences.induct) auto

lemma distinct_first_occurrences: "distinct (first_occurrences xs)"
  by (induction xs rule: first_occurrences.induct) (auto simp: set_first_occurrences)

lemma visit_is_visit_text: "visit st el = visit_text st (cleanReviewText (rawText el))"
  by (simp add: visit_def visit_text_def Let_def)

lemma foldl_visit: "foldl visit st els = foldl visit_text st (map (\<lambda>el. cleanReviewText (rawText el)) els)"
  by (induction els arbitrary: st) (simp_all add: visit_is_visit_text)

lemma try_selector_candidates: "try_selector doc st sel = foldl visit_text st (candidates_of doc sel)"
  by (simp add: try_selector_def candidates_of_def matched_elements_def foldl_visit
      split: completion.splits option.splits)

lemma foldl_try_selector:
  "foldl (try_selector doc) st sels = foldl visit_text st (discovery_order sels doc)"
  by (induction sels arbitrary: st) (simp_all add: discovery_order_def try_selector_candidates)

lemma foldl_visit_text:
  "uniqueTexts st = set (out st) \<Longrightarrow>
   out (foldl visit_text st ts) =
     out st @ first_occurrences (filter (\<lambda>t. length t > 20 \<and> t \<notin> set (out st)) ts)"
proof (induction ts arbitrary: st)
  case Nil
  show ?case by simp
next
  case (Cons t ts)
  show ?case
  proof (cases "length t > 20 \<and> t \<notin> set (out st)")
    case True
    let ?st = "st\<lparr>uniqueTexts := insert t (uniqueTexts st), out := out st @ [t]\<rparr>"
    have v: "visit_text st t = ?st" using True Cons.prems by (auto simp: visit_text_def)
    have inv: "uniqueTexts ?st = set (out ?st)" using Cons.prems by simp
    have f: "filter (\<lambda>y. y \<noteq> t) (filter (\<lambda>u. length u > 20 \<and> u \<notin> set (out st)) ts)
           = filter (\<lambda>u. length u > 20 \<and> u \<notin> set (out ?st)) ts"
      by (auto intro: filter_cong)
    show ?thesis using Cons.IH [OF inv] True v f by simp
  next
    case False
    then have v: "visit_text st t = st" using Cons.prems by (auto simp: visit_text_def)
    show ?thesis using Cons.IH [OF Cons.prems] False v by auto
  qed
qed

lemma gather_accepted: "gatherTextFromSelectors sels doc = accepted sels doc"
  by (simp add: gatherTextFromSelectors_def accepted_def foldl_try_selector foldl_visit_text)

text \<open>
  Claim C2. For every selector list and every document, the reviews the collector
  gathers, cut to 30 by the caller, are all longer than 20 code units, pairwise distinct
  and at most 30; they are the first 30 accepted candidates in discovery order
  (selector-list order, then document order within a selector), where a candidate is
  accepted when it is longer than 20 and differs from every earlier one. The extraction
  pass returns exactly these for the configured review selectors.
\<close>

theorem C2_reviews:
  "(\<forall>r \<in> set (take 30 (gatherTextFromSelectors sels doc)). length r > 20) \<and>
   distinct (take 30 (gatherTextFromSelectors sels doc)) \<and>
   length (take 30 (gatherTextFromSelectors sels doc)) \<le> 30 \<and>
   take 30 (gatherTextFromSelectors sels doc) = take 30 (accepted sels doc) \<and>
   reviews (extraction_pass doc) = take 30 (accepted reviewSelectors doc)"
proof -
  have "\<forall>r \<in> set (accepted sels doc). length r > 20"
    by (simp add: accepted_def set_first_occurrences)
  then have "\<forall>r \<in> set (take 30 (accepted sels doc)). length r > 20"
    by (meson in_set_takeD)
  moreover have "distinct (take 30 (accepted sels doc))"
    by (simp add: accepted_def distinct_first_occurrences)
  ultimately show ?thesis
    by (simp add: gather_accepted extraction_pass_def)
qed


theorem C2_reviews_witness:
  "take 30 (gatherTextFromSelectors [js ''.comment'', js ''.review''] product_page)
     = [js ''Great battery life and build quality overall''] \<and>
   length (js ''Great battery life and build quality overall'') > 20 \<and>
   take 30 (accepted [js ''.comment'', js ''.review''] product_page)
     = [js ''Great battery life and build quality overall'']"
proof -
  have g: "gatherTextFromSelectors [js ''.comment'', js ''.review''] product_page
      = [js ''Great battery life and build quality overall'']"
    by code_simp
  show ?thesis
    using C2_reviews [of "[js ''.comment'', js ''.review'']" product_page] g
    by (simp add: js_def)
qed

section \<open>Properties of the title resolver\<close>

lemma resolveTitle_first_title: "resolveTitle sels doc = first_title sels doc"
proof (induction sels)
  case Nil
  show ?case by (simp add: first_title_def List.map_filter_simps)
next
  case (Cons s ss)
  then show ?case
    by (auto simp: first_title_def List.map_filter_simps title_text_def or_else_def truthy_def
        split: completion.splits option.splits)
qed

lemma title_none: "(\<forall>s \<in> set sels. title_text doc s = None) \<Longrightarrow> first_title sels doc = []"
  by (induction sels) (simp_all add: first_title_def List.map_filter_simps)

text \<open>
  Claim C5. For every ordered selector list and document, \<open>resolveTitle\<close> returns the
  trimmed text of the first selector, in order, whose element has a non-empty text, the
  rendered text being preferred to the raw text content; when no selector yields a text
  (no match, no text, or a query that throws) it returns the empty string. As a total
  function of the model, in which a throwing query is a value, it never throws. In
  particular, with the selectors \<open>#productTitle\<close> and \<open>h1\<close> and a document where only
  \<open>h1\<close> has the text \<open>Wireless Mouse\<close>, it returns \<open>Wireless Mouse\<close>.
\<close>

theorem C5_resolveTitle:
  "resolveTitle sels doc = first_title sels doc \<and>
   ((\<forall>s \<in> set sels. title_text doc s = None) \<longrightarrow> resolveTitle sels doc = []) \<and>
   (title_text doc (js ''#productTitle'') = None \<and>
    title_text doc (js ''h1'') = Some (js ''Wireless Mouse'') \<longrightarrow>
      resolveTitle [js ''#productTitle'', js ''h1''] doc = js ''Wireless Mouse'')"
proof -
  have wm: "trim (js ''Wireless Mouse'') = js ''Wireless Mouse''"
    by (simp add: trim_def js_def is_white_space_def is_line_terminator_def)
  have none: "(\<forall>s \<in> set sels. title_text doc s = None) \<longrightarrow> resolveTitle sels doc = []"
    using title_none [of sels doc] by (simp add: resolveTitle_first_title)
  have ex: "title_text doc (js ''#productTitle'') = None \<and>
      title_text doc (js ''h1'') = Some (js ''Wireless Mouse'') \<longrightarrow>
      resolveTitle [js ''#productTitle'', js ''h1''] doc = js ''Wireless Mouse''"
    by (simp add: resolveTitle_first_title first_title_def List.map_filter_simps wm)
  from none ex show ?thesis
    by (simp add: resolveTitle_first_title)
qed

theorem C5_resolveTitle_witness:
  "resolveTitle [js ''#productTitle'', js ''h1''] bare_page = js ''Wireless Mouse'' \<and>
   resolveTitle [js ''.yhB1nd'', js ''.itvQmW''] bare_page = [] \<and>
   resolveTitle titleSelectors product_page = first_title titleSelectors product_page \<and>
   first_title titleSelectors product_page = js ''Wireless Mouse''"
proof -
  have a: "title_text bare_page (js ''#productTitle'') = None"
    by (simp add: title_text_def bare_page_def js_def)
  have b: "title_text bare_page (js ''h1'') = Some (js ''Wireless Mouse'')"
    by (simp add: title_text_def bare_page_def text_element_def truthy_def js_def)
  have c: "\<forall>s \<in> set [js ''.yhB1nd'', js ''.itvQmW'']. title_text bare_page s = None"
    by (simp add: title_text_def bare_page_def js_def)
  have d: "first_title titleSelectors product_page = js ''Wireless Mouse''"
    by (simp add: first_title_def titleSelectors_def List.map_filter_simps title_text_def
        product_page_def truthy_def js_def trim_def is_white_space_def is_line_terminator_def)
  from a b have r1: "resolveTitle [js ''#productTitle'', js ''h1''] bare_page = js ''Wireless Mouse''"
    using C5_resolveTitle [of "[js ''#productTitle'', js ''h1'']" bare_page] by blast
  from c have r2: "resolveTitle [js ''.yhB1nd'', js ''.itvQmW''] bare_page = []"
    using C5_resolveTitle [of "[js ''.yhB1nd'', js ''.itvQmW'']" bare_page] by blast
  have r3: "resolveTitle titleSelectors product_page = first_title titleSelectors product_page"
    using C5_resolveTitle [of titleSelectors product_page] by blast
  from r1 r2 r3 d show ?thesis by blast
qed

section \<open>Failing selectors\<close>

lemma filter_throwing_gather:
  "foldl (try_selector doc) st (filter (\<lambda>s. querySelectorAll doc s \<noteq> Throws) sels)
     = foldl (try_selector doc) st sels"
  by (induction sels arbitrary: st) (simp_all add: try_selector_def)

lemma filter_throwing_title:
  "resolveTitle (filter (\<lambda>s. querySelector doc s \<noteq> Throws) sels) doc = resolveTitle sels doc"
  by (induction sels) (simp_all split: completion.splits option.splits)

text \<open>
  Claim C6. For every selector list, a selector whose query throws is passed over and
  the collection goes on with the next one: the collector returns what it returns on
  the selectors that do not throw, and so does the title loop. The result is a plain
  value; no failure of a selector reaches the caller.
\<close>

theorem C6_failures_absorbed:
  "gatherTextFromSelectors sels doc
     = gatherTextFromSelectors (filter (\<lambda>s. querySelectorAll doc s \<noteq> Throws) sels) doc \<and>
   resolveTitle sels doc
     = resolveTitle (filter (\<lambda>s. querySelector doc s \<noteq> Throws) sels) doc"
  by (simp add: gatherTextFromSelectors_def filter_throwing_gather filter_throwing_title)

theorem C6_failures_absorbed_witness:
  "querySelectorAll product_page (js ''.comment'') = Throws \<and>
   gatherTextFromSelectors [js ''.comment'', js ''.review''] product_page
     = gatherTextFromSelectors [js ''.review''] product_page \<and>
   querySelector product_page (js ''.B_NuCI'') = Throws \<and>
   resolveTitle [js ''.B_NuCI'', js ''h1''] product_page = resolveTitle [js ''h1''] product_page"
  using C6_failures_absorbed [of "[js ''.comment'', js ''.review'']" product_page]
        C6_failures_absorbed [of "[js ''.B_NuCI'', js ''h1'']" product_page]
  by (simp add: product_page_def js_def)

section \<open>A page without reviews\<close>

lemma no_matches_accepted:
  "(\<forall>s \<in> set sels. matched_elements doc s = []) \<Longrightarrow> accepted sels doc = []"
  by (induction sels) (simp_all add: accepted_def discovery_order_def candidates_of_def)

text \<open>
  Claim C7. For every document in which no configured review selector matches an
  element, the extraction pass returns the record with no reviews, the resolved title
  (possibly empty) and the location; \<open>queryActiveTabAndScrape\<close> returns it as a
  result, and it is the caller, \<open>summarize\<close>, that turns the empty list into the error
  \<open>No reviews found\<close>.
\<close>

theorem C7_no_reviews:
  "(\<forall>s \<in> set reviewSelectors. matched_elements doc s = []) \<longrightarrow>
     extraction_pass doc = \<lparr>reviews = [], title = resolveTitle titleSelectors doc, url = href doc\<rparr> \<and>
     queryActiveTabAndScrape (Some (Some doc)) = Inr (extraction_pass doc) \<and>
     summarize_payload (Some (Some doc)) = Inl NoReviewsFound"
  by (simp add: extraction_pass_def gather_accepted no_matches_accepted
      queryActiveTabAndScrape_def summarize_payload_def)

theorem C7_no_reviews_witness:
  "extraction_pass bare_page
     = \<lparr>reviews = [], title = js ''Wireless Mouse'', url = js ''https://shop.example/item/2''\<rparr> \<and>
   queryActiveTabAndScrape (Some (Some bare_page)) = Inr (extraction_pass bare_page) \<and>
   summarize_payload (Some (Some bare_page)) = Inl NoReviewsFound"
proof -
  have h: "\<forall>s \<in> set reviewSelectors. matched_elements bare_page s = []"
    by (simp add: matched_elements_def bare_page_def)
  have t: "resolveTitle titleSelectors bare_page = js ''Wireless Mouse''"
    by (simp add: titleSelectors_def bare_page_def text_element_def or_else_def truthy_def js_def
        trim_def is_white_space_def is_line_terminator_def)
  have u: "href bare_page = js ''https://shop.example/item/2''"
    by (simp add: bare_page_def)
  from h t u show ?thesis using C7_no_reviews [of bare_page] by simp
qed

section \<open>The matcher and the replacement\<close>

lemma rmatch_star_last: "rmatch [(k, Star)] s = Some (length (takeWhile (matches k) s))"
  by (induction s) simp_all

lemma matches_Space: "matches Space = is_white_space"
  by (rule ext) simp

lemma rmatch_ws_run:
  "rmatch [(Space, One), (Space, Plus)] s =
     (if 2 \<le> length (takeWhile is_white_space s) then Some (length (takeWhile is_white_space s))
      else None)"
proof -
  have m: "matches Space = is_white_space" by (rule ext) simp
  show ?thesis
  proof (cases s)
    case Nil
    then show ?thesis by simp
  next
    case (Cons c cs)
    show ?thesis
    proof (cases cs)
      case Nil
      with Cons show ?thesis by simp
    next
      case (Cons d ds)
      with \<open>s = c # cs\<close> show ?thesis by (simp add: rmatch_star_last m)
    qed
  qed
qed

lemma collapse_ws_runs: "collapse_ws s = collapse_runs s"
proof (induction s rule: collapse_runs.induct)
  case 1
  show ?case by (simp add: collapse_ws_def)
next
  case (2 c)
  show ?case by (simp add: collapse_ws_def)
next
  case (3 c d cs)
  show ?case
  proof (cases "is_white_space c \<and> is_white_space d")
    case True
    then have "rmatch [(Space, One), (Space, Plus)] (c # d # cs)
        = Some (Suc (Suc (length (takeWhile is_white_space cs))))"
      by (simp add: rmatch_star_last matches_Space)
    then have "collapse_ws (c # d # cs) = 0x20 # collapse_ws (dropWhile is_white_space cs)"
      by (simp add: collapse_ws_def dropWhile_eq_drop)
    with True 3 show ?thesis by simp
  next
    case False
    then have "rmatch [(Space, One), (Space, Plus)] (c # d # cs) = None"
      by (auto simp: rmatch_star_last matches_Space)
    then have "collapse_ws (c # d # cs) = c # collapse_ws (d # cs)"
      by (simp add: collapse_ws_def)
    with False 3 show ?thesis by auto
  qed
qed

lemma rmatch_solid: "q \<noteq> Star \<Longrightarrow> rmatch ((k, q) # p) s \<noteq> Some 0"
  by (cases q; cases s) auto

lemma rmatch_first: "q \<noteq> Star \<Longrightarrow> \<not> matches k c \<Longrightarrow> rmatch ((k, q) # p) (c # cs) = None"
  by (cases q) auto

lemma rmatch_append: "rmatch p u \<noteq> None \<Longrightarrow> rmatch p (u @ v) \<noteq> None"
proof (induction p u rule: rmatch.induct)
  case (6 k p)
  then show ?case
    by (induction v) (auto split: option.splits)
next
  case (7 k p c cs)
  then show ?case by (auto split: option.splits if_splits)
qed (auto split: if_splits)

lemma rmatch_le: "rmatch p s = Some n \<Longrightarrow> n \<le> length s"
  by (induction p s arbitrary: n rule: rmatch.induct) (auto split: if_splits option.splits)

lemma replace_no_occurrence: "\<not> occurs p s \<Longrightarrow> replace_global p r s = s"
  by (induction s) auto

lemma rmatch_barrier:
  "\<forall>(k, q) \<in> set p. \<not> matches k t \<Longrightarrow> rmatch p (x @ t # y) = rmatch p x"
  by (induction p x rule: rmatch.induct) (auto split: option.splits)

lemma solid_nonzero: "solid p \<Longrightarrow> rmatch p s \<noteq> Some 0"
  by (cases p) (auto simp: solid_def rmatch_solid)

lemma solid_empty: "solid p \<Longrightarrow> rmatch p [] = None"
proof -
  assume "solid p"
  then obtain k q p' where p: "p = (k, q) # p'" and q: "q \<noteq> Star"
    by (cases p) (auto simp: solid_def)
  from q show ?thesis unfolding p by (cases q) simp_all
qed

lemma replace_barrier:
  assumes "\<forall>(k, q) \<in> set p. \<not> matches k t" and "solid p"
  shows "replace_global p [] (x @ t # y) = replace_global p [] x @ t # replace_global p [] y"
proof (induction x rule: length_induct)
  case (1 x)
  show ?case
  proof (cases x)
    case Nil
    have "rmatch p (t # y) = None"
      using rmatch_barrier [OF assms(1), of "[]" y] solid_empty [OF assms(2)] by simp
    with Nil solid_empty [OF assms(2)] show ?thesis by simp
  next
    case (Cons c cs)
    have eq: "rmatch p (c # cs @ t # y) = rmatch p (c # cs)"
      using rmatch_barrier [OF assms(1), of "c # cs" y] by simp
    show ?thesis
    proof (cases "rmatch p (c # cs)")
      case None
      with eq Cons 1 show ?thesis by simp
    next
      case (Some m)
      with solid_nonzero [OF assms(2)] obtain n where m: "m = Suc n"
        by (cases m) auto
      with Some rmatch_le have "n \<le> length cs" by fastforce
      with Some m eq Cons 1 show ?thesis by simp
    qed
  qed
qed

lemma copy_prefix:
  "\<forall>i < length w. rmatch p (drop i w @ s) = None \<Longrightarrow>
   replace_global p r (w @ s) = w @ replace_global p r s"
proof (induction w)
  case Nil
  show ?case by simp
next
  case (Cons c w)
  from Cons.prems have "rmatch p (c # w @ s) = None" by fastforce
  moreover from Cons.prems have "\<forall>i < length w. rmatch p (drop i w @ s) = None" by fastforce
  ultimately show ?case using Cons.IH by simp
qed

section \<open>Patterns of fixed length\<close>

lemma canonicalize_digit: "is_digit c \<Longrightarrow> canonicalize c = c"
  by (auto simp: is_digit_def canonicalize_def word_le_nat_alt)

lemma disjoint_cls_sound: "disjoint_cls a b \<Longrightarrow> matches a c \<Longrightarrow> matches b c \<Longrightarrow> False"
  by (induction a b rule: disjoint_cls.induct) (auto simp: canonicalize_digit)

lemma rmatch_fixed_append:
  "rmatch (fixed ks @ q) s =
     (if length ks \<le> length s \<and> list_all2 matches ks (take (length ks) s)
      then map_option (\<lambda>m. length ks + m) (rmatch q (drop (length ks) s))
      else None)"
proof (induction ks arbitrary: s)
  case Nil
  show ?case by (cases "rmatch q s") (simp_all add: fixed_def)
next
  case (Cons k ks)
  show ?case
  proof (cases s)
    case Nil
    then show ?thesis by (simp add: fixed_def)
  next
    case (Cons c cs)
    with Cons.IH [of cs] show ?thesis
      by (auto simp: fixed_def option.map_comp comp_def)
  qed
qed

lemma rmatch_fixed:
  "rmatch (fixed ks) s =
     (if length ks \<le> length s \<and> list_all2 matches ks (take (length ks) s)
      then Some (length ks) else None)"
  using rmatch_fixed_append [of ks "[]" s] by simp

lemma both_match_not_disjoint:
  "list_all2 matches A z \<Longrightarrow> list_all2 matches B z \<Longrightarrow>
   \<not> list_ex (\<lambda>(a, b). disjoint_cls a b) (zip A B)"
proof (induction A z arbitrary: B rule: list_all2_induct)
  case Nil
  then show ?case by simp
next
  case (Cons a A c z)
  then show ?case
    by (cases B) (auto dest: disjoint_cls_sound)
qed

lemma zip_take_right: "zip xs (take (length xs) ys) = zip xs ys"
proof (induction xs arbitrary: ys)
  case Nil
  show ?case by simp
next
  case (Cons x xs)
  then show ?case by (cases ys) simp_all
qed

lemma no_straddle:
  assumes bf: "border_free ks" and w: "list_all2 matches ks w"
    and x: "x \<noteq> []" "length x < length ks"
  shows "\<not> list_all2 matches ks (take (length ks) (x @ w @ v))"
proof
  let ?n = "length ks" and ?j = "length x"
  assume m: "list_all2 matches ks (take ?n (x @ w @ v))"
  have lw: "length w = ?n" using w by (simp add: list_all2_lengthD)
  have tk: "take ?n (x @ w @ v) = x @ take (?n - ?j) w"
    using x lw by simp
  have m': "list_all2 matches ks (x @ take (?n - ?j) w)"
    using m unfolding tk .
  have a: "list_all2 matches (drop ?j ks) (take (?n - ?j) w)"
    using list_all2_dropI [OF m', of ?j] by simp
  have b: "list_all2 matches (take (?n - ?j) ks) (take (?n - ?j) w)"
    using w by (rule list_all2_takeI)
  have "zip (drop ?j ks) (take (?n - ?j) ks) = zip (drop ?j ks) ks"
    using zip_take_right [of "drop ?j ks" ks] by simp
  with both_match_not_disjoint [OF a b]
  have "\<not> list_ex (\<lambda>(a, b). disjoint_cls a b) (zip (drop ?j ks) ks)" by simp
  moreover have "?j \<in> set [1..<?n]" using x by (cases x) auto
  ultimately show False using bf by (auto simp: border_free_def list_all_iff)
qed

lemma solid_fixed: "ks \<noteq> [] \<Longrightarrow> solid (fixed ks @ q)"
  by (cases ks) (simp_all add: solid_def fixed_def)

lemma replace_match:
  "rmatch p s = Some m \<Longrightarrow> 0 < m \<Longrightarrow> replace_global p [] s = replace_global p [] (drop m s)"
  by (cases s; cases m) auto

lemma replace_no_match:
  "rmatch p (c # cs) = None \<Longrightarrow> replace_global p [] (c # cs) = c # replace_global p [] cs"
  by simp

lemma cut_out_fixed:
  assumes bf: "border_free ks" and ne: "ks \<noteq> []" and w: "list_all2 matches ks w"
  shows "replace_global (fixed ks) [] (u @ w @ v)
       = replace_global (fixed ks) [] u @ replace_global (fixed ks) [] v"
proof (induction u rule: length_induct)
  case (1 u)
  let ?P = "fixed ks" and ?n = "length ks"
  have lw: "length w = ?n" using w by (simp add: list_all2_lengthD)
  have n0: "0 < ?n" using ne by simp
  have sol: "solid ?P" using solid_fixed [OF ne, of "[]"] by simp
  show ?case
  proof (cases u)
    case Nil
    have "rmatch ?P (w @ v) = Some ?n" using w lw by (simp add: rmatch_fixed)
    from replace_match [OF this n0] lw Nil sol show ?thesis
      by (simp add: solid_empty)
  next
    case (Cons c u')
    show ?thesis
    proof (cases "length u < ?n")
      case True
      then have a: "rmatch ?P u = None" by (simp add: rmatch_fixed)
      have "u \<noteq> []" using Cons by simp
      from no_straddle [OF bf w this True]
      have b: "rmatch ?P (u @ w @ v) = None" by (simp add: rmatch_fixed)
      from a b Cons 1 show ?thesis by simp
    next
      case False
      then have eq: "rmatch ?P (u @ w @ v) = rmatch ?P u" by (simp add: rmatch_fixed)
      show ?thesis
      proof (cases "rmatch ?P u")
        case None
        with eq Cons 1 show ?thesis by simp
      next
        case (Some m)
        then have m: "m = ?n" by (auto simp: rmatch_fixed split: if_splits)
        have d: "drop ?n (u @ w @ v) = drop ?n u @ w @ v" using False by simp
        have "length (drop ?n u) < length u" using n0 Cons by simp
        with 1 have "replace_global ?P [] (drop ?n u @ w @ v)
            = replace_global ?P [] (drop ?n u) @ replace_global ?P [] v" by blast
        with replace_match [of ?P u ?n] replace_match [of ?P "u @ w @ v" ?n] Some eq m n0 d
        show ?thesis by simp
      qed
    qed
  qed
qed

lemma takeWhile_length_0: "length (takeWhile P b) = 0 \<Longrightarrow> takeWhile P b = []"
  by (rule length_0_conv [THEN iffD1])

lemma takeWhile_length_step: "P x \<Longrightarrow> length (takeWhile P ((x # a) @ b)) = length (x # a) \<Longrightarrow> length (takeWhile P (a @ b)) = length a"
  by simp

lemma takeWhile_length_stop: "\<not> P x \<Longrightarrow> length (takeWhile P ((x # a) @ b)) = length (x # a) \<Longrightarrow> False"
  by simp

lemma takeWhile_length_append:
  "length (takeWhile P (a @ b)) = length a \<Longrightarrow> (\<forall>x \<in> set a. P x) \<and> takeWhile P b = []"
proof (induction a)
  case Nil
  then have "length (takeWhile P b) = 0" by (simp only: append_Nil list.size)
  then have "takeWhile P b = []" by (rule takeWhile_length_0)
  then show ?case by (simp only: set_simps ball_empty simp_thms)
next
  case (Cons x a)
  show ?case
  proof (cases "P x")
    case True
    from takeWhile_length_step [OF True Cons.prems] have "(\<forall>x \<in> set a. P x) \<and> takeWhile P b = []" by (rule Cons.IH)
    with True show ?thesis by auto
  next
    case False
    from takeWhile_length_stop [OF False Cons.prems] show ?thesis ..
  qed
qed

lemma rmatch_line:
  "rmatch (fixed ks @ [(Dot, Star)]) s =
     (if length ks \<le> length s \<and> list_all2 matches ks (take (length ks) s)
      then Some (length ks + length (takeWhile (matches Dot) (drop (length ks) s)))
      else None)"
  by (simp add: rmatch_fixed_append rmatch_star_last)

lemma list_all2_matched:
  "list_all2 matches ks z \<Longrightarrow> \<forall>k \<in> set ks. \<forall>c. matches k c \<longrightarrow> Q c \<Longrightarrow> \<forall>c \<in> set z. Q c"
  by (induction ks z rule: list_all2_induct) auto

lemma cut_out_line:
  assumes bf: "border_free ks" and ne: "ks \<noteq> []"
    and nolt: "\<forall>k \<in> set ks. \<forall>c. matches k c \<longrightarrow> matches Dot c"
    and m: "rmatch (fixed ks @ [(Dot, Star)]) (w @ v) = Some (length w)"
  shows "replace_global (fixed ks @ [(Dot, Star)]) [] (u @ w @ v)
       = replace_global (fixed ks @ [(Dot, Star)]) [] u
         @ replace_global (fixed ks @ [(Dot, Star)]) [] v"
proof (induction u rule: length_induct)
  case (1 u)
  let ?P = "fixed ks @ [(Dot, Star)]" and ?n = "length ks"
  define D where "D = matches Dot"
  have rl: "rmatch ?P s =
     (if ?n \<le> length s \<and> list_all2 matches ks (take ?n s)
      then Some (?n + length (takeWhile D (drop ?n s))) else None)" for s
    unfolding D_def by (rule rmatch_line)
  have n0: "0 < ?n" using ne by simp
  have sol: "solid ?P" by (rule solid_fixed [OF ne])
  define wv where "wv = w @ v"
  from m have "rmatch ?P wv = Some (length w)" by (simp only: wv_def)
  then have f2: "list_all2 matches ks (take ?n wv)"
    and f3: "?n + length (takeWhile D (drop ?n wv)) = length w"
    by (auto simp: rl split: if_splits)
  from f3 have nw: "?n \<le> length w" by linarith
  with f2 have hd: "list_all2 matches ks (take ?n w)" by (simp add: wv_def)
  from f3 nw have "length (takeWhile D (drop ?n w @ v)) = length (drop ?n w)"
    by (simp add: wv_def)
  from takeWhile_length_append [OF this]
  have tl: "\<forall>x \<in> set (drop ?n w). D x" and tv: "takeWhile D v = []" by auto
  have "\<forall>x \<in> set (take ?n w). D x"
    unfolding D_def using list_all2_matched [OF hd nolt] .
  moreover have "set w = set (take ?n w) \<union> set (drop ?n w)"
    by (metis append_take_drop_id set_append)
  ultimately have allw: "\<forall>x \<in> set w. D x" using tl by blast
  have w0: "0 < length w" using nw n0 by linarith
  show ?case
  proof (cases u)
    case Nil
    from replace_match [OF m w0] Nil sol show ?thesis by (simp add: solid_empty)
  next
    case (Cons c u')
    have lt': "length u' < length u" using Cons by simp
    note IH' = 1 [rule_format, OF lt']
    show ?thesis
    proof (cases "length u < ?n")
      case True
      then have a: "rmatch ?P u = None" by (simp add: rl)
      have une: "u \<noteq> []" using Cons by simp
      have e: "u @ take ?n w @ drop ?n w @ v = u @ w @ v" by simp
      have "\<not> list_all2 matches ks (take ?n (u @ take ?n w @ drop ?n w @ v))"
        by (rule no_straddle [OF bf hd une True])
      then have ns: "\<not> list_all2 matches ks (take ?n (u @ w @ v))"
        unfolding e .
      have b: "rmatch ?P (u @ w @ v) = None"
        by (simp only: rl ns simp_thms if_False)
      from a b Cons IH' show ?thesis by simp
    next
      case False
      show ?thesis
      proof (cases "list_all2 matches ks (take ?n u)")
        case no: False
        with False have a: "rmatch ?P u = None" and b: "rmatch ?P (u @ w @ v) = None"
          by (simp_all add: rl)
        from a b Cons IH' show ?thesis by simp
      next
        case yes: True
        let ?a = "length (takeWhile D (drop ?n u))"
        have mu: "rmatch ?P u = Some (?n + ?a)" using False yes by (simp add: rl)
        have pos: "0 < ?n + ?a" using n0 by simp
        show ?thesis
        proof (cases "\<forall>x \<in> set (drop ?n u). D x")
          case True
          then have "takeWhile D (drop ?n u) = drop ?n u" by simp
          then have au: "?a = length (drop ?n u)" by (simp only:)
          have "takeWhile D (drop ?n u @ w @ v) = drop ?n u @ takeWhile D (w @ v)"
            using True by (intro takeWhile_append2) blast
          also have "takeWhile D (w @ v) = w @ takeWhile D v"
            using allw by (intro takeWhile_append2) blast
          finally have "takeWhile D (drop ?n u @ w @ v) = drop ?n u @ w"
            by (simp only: tv append_Nil2)
          then have "rmatch ?P (u @ w @ v) = Some (length u + length w)"
            using False yes by (simp add: rl)
          from replace_match [OF this] w0
          have l: "replace_global ?P [] (u @ w @ v) = replace_global ?P [] v" by simp
          from replace_match [OF mu pos] au False sol
          have r: "replace_global ?P [] u = []" by (simp add: solid_empty)
          from l r show ?thesis by simp
        next
          case stop: False
          then obtain x where "x \<in> set (drop ?n u)" "\<not> D x" by blast
          then have "takeWhile D (drop ?n u @ w @ v) = takeWhile D (drop ?n u)"
            by (rule takeWhile_append1)
          then have mc: "rmatch ?P (u @ w @ v) = Some (?n + ?a)"
            using False yes by (simp add: rl)
          have le: "?n + ?a \<le> length u"
            using False length_takeWhile_le [of D "drop ?n u"] by simp
          then have d: "drop (?n + ?a) (u @ w @ v) = drop (?n + ?a) u @ w @ v" by simp
          have lt: "length (drop (?n + ?a) u) < length u" using n0 Cons by simp
          have "replace_global ?P [] (drop (?n + ?a) u @ w @ v)
              = replace_global ?P [] (drop (?n + ?a) u) @ replace_global ?P [] v"
            by (rule 1 [rule_format, OF lt])
          with replace_match [OF mu pos] replace_match [OF mc pos] d show ?thesis by simp
        qed
      qed
    qed
  qed
qed

section \<open>The noise patterns\<close>

lemma lit_fixed: "lit s = fixed (lit_cls s)"
  by (simp add: lit_def fixed_def lit_cls_def)

lemma star_fixed:
  "[(Digit, One), (Lit 0x2E, One), (Digit, One)] @ lit '' out of 5 stars'' = fixed star_cls"
  by (simp add: lit_def fixed_def lit_cls_def star_cls_def)

lemma list_all2_lit:
  "list_all2 matches (lit_cls L) w \<longleftrightarrow> map canonicalize w = map canonicalize (js L)"
proof (induction L arbitrary: w)
  case Nil
  show ?case by (simp add: lit_cls_def js_def)
next
  case (Cons a L)
  then show ?case by (cases w) (auto simp: lit_cls_def js_def)
qed

lemma replace_subset: "set (replace_global p [] s) \<subseteq> set s"
proof (induction s rule: length_induct)
  case (1 s)
  show ?case
  proof (cases s)
    case Nil
    then show ?thesis by (simp split: option.splits)
  next
    case (Cons c cs)
    have a: "set (replace_global p [] cs) \<subseteq> set cs" using 1 Cons by simp
    have b: "set (replace_global p [] (drop n cs)) \<subseteq> set cs" for n
    proof -
      have "set (replace_global p [] (drop n cs)) \<subseteq> set (drop n cs)" using 1 Cons by simp
      then show ?thesis using set_drop_subset [of n cs] by blast
    qed
    from a b Cons show ?thesis by (auto split: option.splits nat.splits)
  qed
qed

lemma no_match_inside:
  assumes cf: "cross_free as bs" and w: "list_all2 matches bs w" and i: "i < length w"
  shows "rmatch (fixed as @ q) (drop i w @ y) = None"
proof -
  let ?m = "min (length as) (length w - i)"
  have lw: "length w = length bs" using w by (simp add: list_all2_lengthD)
  have "\<not> list_all2 matches as (take (length as) (drop i w @ y))"
  proof
    assume m: "list_all2 matches as (take (length as) (drop i w @ y))"
    have "list_all2 matches (take ?m as) (take ?m (take (length as) (drop i w @ y)))"
      using m by (rule list_all2_takeI)
    then have a: "list_all2 matches (take ?m as) (take ?m (drop i w))" by simp
    have "list_all2 matches (drop i bs) (drop i w)" using w by (rule list_all2_dropI)
    then have b: "list_all2 matches (take ?m (drop i bs)) (take ?m (drop i w))"
      by (rule list_all2_takeI)
    have "zip (take ?m as) (take ?m (drop i bs)) = zip as (drop i bs)"
      using lw by (simp add: take_zip [symmetric])
    with both_match_not_disjoint [OF a b]
    have "\<not> list_ex (\<lambda>(a, b). disjoint_cls a b) (zip as (drop i bs))" by simp
    moreover have "i \<in> set [0..<length bs]" using i lw by simp
    ultimately show False using cf by (auto simp: cross_free_def list_all_iff)
  qed
  then show ?thesis by (simp add: rmatch_fixed_append)
qed

lemma copy_matched:
  assumes "cross_free as bs" and "list_all2 matches bs w"
  shows "replace_global (fixed as @ q) [] (w @ y) = w @ replace_global (fixed as @ q) [] y"
  using no_match_inside [OF assms] by (intro copy_prefix) blast

lemma border_free_star: "border_free star_cls"
  by code_simp

lemma border_free_india: "border_free (lit_cls ''Reviewed in India on '')"
  by code_simp

lemma border_free_uae: "border_free (lit_cls ''Reviewed in the United Arab Emirates on '')"
  by code_simp

lemma border_free_verified: "border_free (lit_cls ''Verified Purchase'')"
  by code_simp

lemma border_free_helpful: "border_free (lit_cls ''Helpful'')"
  by code_simp

lemma border_free_report: "border_free (lit_cls ''Report'')"
  by code_simp

lemma cross_free_star_india: "cross_free star_cls (lit_cls ''Reviewed in India on '')"
  by code_simp

lemma cross_free_star_uae: "cross_free star_cls (lit_cls ''Reviewed in the United Arab Emirates on '')"
  by code_simp

lemma cross_free_india_uae:
  "cross_free (lit_cls ''Reviewed in India on '') (lit_cls ''Reviewed in the United Arab Emirates on '')"
  by code_simp

lemma canonicalize_terminator: "is_line_terminator c \<Longrightarrow> canonicalize c = c"
  by (auto simp: is_line_terminator_def canonicalize_def)

lemma lit_no_terminator:
  "\<not> is_line_terminator (canonicalize a) \<Longrightarrow> matches (Lit a) c \<Longrightarrow> matches Dot c"
  using canonicalize_terminator [of c] by auto

lemma lit_cls_no_terminator:
  "list_all (\<lambda>a. \<not> is_line_terminator (canonicalize a)) (js L) \<Longrightarrow>
   \<forall>k \<in> set (lit_cls L). \<forall>c. matches k c \<longrightarrow> matches Dot c"
  using lit_no_terminator by (auto simp: list_all_iff lit_cls_def js_def)

lemma india_no_terminator:
  "\<forall>k \<in> set (lit_cls ''Reviewed in India on ''). \<forall>c. matches k c \<longrightarrow> matches Dot c"
  by (rule lit_cls_no_terminator) code_simp

lemma uae_no_terminator:
  "\<forall>k \<in> set (lit_cls ''Reviewed in the United Arab Emirates on ''). \<forall>c. matches k c \<longrightarrow> matches Dot c"
  by (rule lit_cls_no_terminator) code_simp

lemma noise_barrier: "p \<in> set noisePatterns \<Longrightarrow> \<forall>(k, q) \<in> set p. \<not> matches k 0x0A"
  by (auto simp: noisePatterns_def lit_def is_digit_def is_line_terminator_def canonicalize_def)

section \<open>What a deleting pass retains\<close>

lemma retained_not_Nil: "retained p s \<noteq> []"
  by (induction s rule: length_induct, case_tac xs)
     (auto split: option.splits nat.splits list.splits)

lemma replace_retained: "solid p \<Longrightarrow> replace_global p [] s = concat (retained p s)"
proof (induction s rule: length_induct)
  case (1 s)
  show ?case
  proof (cases s)
    case Nil
    with 1 show ?thesis by (simp add: solid_empty)
  next
    case (Cons c cs)
    show ?thesis
    proof (cases "rmatch p (c # cs)")
      case None
      with Cons 1 retained_not_Nil [of p cs] show ?thesis
        by (auto split: list.splits)
    next
      case (Some m)
      with solid_nonzero [OF 1(2)] obtain n where m: "m = Suc n" by (cases m) auto
      with Some Cons 1 show ?thesis by simp
    qed
  qed
qed

lemma hd_retained_prefix: "\<exists>rest. s = hd (retained p s) @ rest"
proof (induction s)
  case Nil
  show ?case by simp
next
  case (Cons c cs)
  then show ?case
    using retained_not_Nil [of p cs]
    by (auto split: option.splits nat.splits list.splits)
qed

lemma retained_free: "solid p \<Longrightarrow> k \<in> set (retained p s) \<Longrightarrow> \<not> occurs p k"
proof (induction s arbitrary: k rule: length_induct)
  case (1 s)
  note IH = 1(1) and sol = 1(2) and mem = 1(3)
  show ?case
  proof (cases s)
    case Nil
    with mem sol show ?thesis by (simp add: solid_empty)
  next
    case (Cons c cs)
    show ?thesis
    proof (cases "rmatch p (c # cs)")
      case None
      obtain h hs where r: "retained p cs = h # hs"
        using retained_not_Nil [of p cs] by (cases "retained p cs") auto
      with None Cons mem have k: "k = c # h \<or> k \<in> set hs" by auto
      have free: "\<And>x. x \<in> set (retained p cs) \<Longrightarrow> \<not> occurs p x"
        using IH sol Cons by auto
      show ?thesis
      proof (cases "k = c # h")
        case True
        obtain rest where "cs = h @ rest" using hd_retained_prefix [of cs p] r by auto
        then have "rmatch p (c # h) = None"
          using None rmatch_append [of p "c # h" rest] by (cases "rmatch p (c # h)") auto
        moreover have "\<not> occurs p h" using free r by simp
        ultimately show ?thesis using True by simp
      next
        case False
        with k r free show ?thesis by simp
      qed
    next
      case (Some m)
      with solid_nonzero [OF sol] obtain n where m: "m = Suc n" by (cases m) auto
      with Some Cons mem have "k = [] \<or> k \<in> set (retained p (drop n cs))" by auto
      then show ?thesis
      proof
        assume "k = []"
        with sol show ?thesis by (simp add: solid_empty)
      next
        assume "k \<in> set (retained p (drop n cs))"
        moreover have "length (drop n cs) < length s" using Cons by simp
        ultimately show ?thesis using IH sol by blast
      qed
    qed
  qed
qed

lemma noise_solid: "p \<in> set noisePatterns \<Longrightarrow> solid p"
  by (auto simp: noisePatterns_def solid_def lit_def)

text \<open>
  Claim C1, amended. For every input text and every configured noise pattern, the
  pass for that pattern returns the retained stretches of the text put together, and
  no retained stretch contains an occurrence of the pattern: every match met in the
  scan from the left is deleted. The cleaned text can still contain an occurrence
  formed where a deletion brings the characters around it together, or where lines are
  joined by a space; the passes run once each and are not repeated.
\<close>

theorem C1_pass_retains_no_occurrence:
  "\<forall>p \<in> set noisePatterns.
     replace_global p [] s = concat (retained p s) \<and>
     (\<forall>k \<in> set (retained p s). \<not> occurs p k)"
  using replace_retained retained_free noise_solid by blast

theorem C1_pass_retains_no_occurrence_witness:
  "replace_global (lit ''Helpful'') [] (js ''It was HelHelpfulpful to me'')
     = concat [js ''It was Hel'', js ''pful to me''] \<and>
   \<not> occurs (lit ''Helpful'') (js ''It was Hel'') \<and>
   \<not> occurs (lit ''Helpful'') (js ''pful to me'')"
proof -
  have m: "lit ''Helpful'' \<in> set noisePatterns"
    by (simp add: noisePatterns_def)
  have r: "retained (lit ''Helpful'') (js ''It was HelHelpfulpful to me'')
      = [js ''It was Hel'', js ''pful to me'']"
    by code_simp
  from m r show ?thesis
    using C1_pass_retains_no_occurrence [of "js ''It was HelHelpfulpful to me''"]
    by auto
qed

text \<open>
  The claim as stated fails: the deletion of \<open>Helpful\<close> inside \<open>HelHelpfulpful\<close> leaves
  \<open>Helpful\<close>, and two retained lines joined by a space can read \<open>Verified Purchase\<close>.
\<close>

theorem C1_counterexample:
  "lit ''Helpful'' \<in> set noisePatterns \<and>
   cleanReviewText (js ''It was HelHelpfulpful to me'') = js ''It was Helpful to me'' \<and>
   occurs (lit ''Helpful'') (js ''It was Helpful to me'') \<and>
   lit ''Verified Purchase'' \<in> set noisePatterns \<and>
   cleanReviewText (js ''This one was Verified'' @ 0x0A # js ''Purchase made in the store'')
     = js ''This one was Verified Purchase made in the store'' \<and>
   occurs (lit ''Verified Purchase'') (js ''This one was Verified Purchase made in the store'')"
proof -
  have a: "cleanReviewText (js ''It was HelHelpfulpful to me'') = js ''It was Helpful to me''"
    by code_simp
  have b: "occurs (lit ''Helpful'') (js ''It was Helpful to me'')"
    by code_simp
  have c: "cleanReviewText (js ''This one was Verified'' @ 0x0A # js ''Purchase made in the store'')
      = js ''This one was Verified Purchase made in the store''"
    by code_simp
  have d: "occurs (lit ''Verified Purchase'') (js ''This one was Verified Purchase made in the store'')"
    by code_simp
  from a b c d show ?thesis by (simp add: noisePatterns_def)
qed

section \<open>Occurrences are cut out\<close>

lemma cut_out_fixed_match:
  assumes "border_free ks" and "ks \<noteq> []" and m: "rmatch (fixed ks) (w @ v) = Some (length w)"
  shows "replace_global (fixed ks) [] (u @ w @ v)
       = replace_global (fixed ks) [] u @ replace_global (fixed ks) [] v"
proof -
  from m have "length w = length ks" and "list_all2 matches ks (take (length ks) (w @ v))"
    by (auto simp: rmatch_fixed split: if_splits)
  then have "list_all2 matches ks w" by simp
  with assms(1,2) show ?thesis by (rule cut_out_fixed)
qed

lemma take6_noisePatterns:
  "take 6 noisePatterns =
     [ fixed star_cls,
       fixed (lit_cls ''Reviewed in India on '') @ [(Dot, Star)],
       fixed (lit_cls ''Reviewed in the United Arab Emirates on '') @ [(Dot, Star)],
       fixed (lit_cls ''Verified Purchase''),
       fixed (lit_cls ''Helpful''),
       fixed (lit_cls ''Report'') ]"
  by (simp add: noisePatterns_def lit_def fixed_def lit_cls_def star_cls_def)

lemma lit_cls_not_Nil: "L \<noteq> [] \<Longrightarrow> lit_cls L \<noteq> []"
  by (simp add: lit_cls_def)

lemma cut_out_noise:
  assumes "p \<in> set (take 6 noisePatterns)" and "rmatch p (w @ v) = Some (length w)"
  shows "replace_global p [] (u @ w @ v) = replace_global p [] u @ replace_global p [] v"
proof -
  from assms(1) consider
      "p = fixed star_cls"
    | "p = fixed (lit_cls ''Reviewed in India on '') @ [(Dot, Star)]"
    | "p = fixed (lit_cls ''Reviewed in the United Arab Emirates on '') @ [(Dot, Star)]"
    | "p = fixed (lit_cls ''Verified Purchase'')"
    | "p = fixed (lit_cls ''Helpful'')"
    | "p = fixed (lit_cls ''Report'')"
    unfolding take6_noisePatterns by auto
  then show ?thesis
  proof cases
    case 1
    have "star_cls \<noteq> []" by (simp add: star_cls_def)
    with border_free_star show ?thesis using assms(2) unfolding 1 by (rule cut_out_fixed_match)
  next
    case 2
    show ?thesis using assms(2) unfolding 2
      by (intro cut_out_line border_free_india india_no_terminator lit_cls_not_Nil) simp_all
  next
    case 3
    show ?thesis using assms(2) unfolding 3
      by (intro cut_out_line border_free_uae uae_no_terminator lit_cls_not_Nil) simp_all
  next
    case 4
    show ?thesis using assms(2) unfolding 4
      by (intro cut_out_fixed_match border_free_verified lit_cls_not_Nil) simp_all
  next
    case 5
    show ?thesis using assms(2) unfolding 5
      by (intro cut_out_fixed_match border_free_helpful lit_cls_not_Nil) simp_all
  next
    case 6
    show ?thesis using assms(2) unfolding 6
      by (intro cut_out_fixed_match border_free_report lit_cls_not_Nil) simp_all
  qed
qed

lemma star_fragment:
  "is_digit a \<Longrightarrow> is_digit b \<Longrightarrow>
   rmatch (noisePatterns ! 0) (a # 0x2E # b # js '' out of 5 stars'' @ v) = Some 18"
  by (simp add: noisePatterns_def lit_def js_def canonicalize_def)

lemma verified_fragment: "rmatch (noisePatterns ! 3) (js ''Verified Purchase'' @ v) = Some 17"
  by (simp add: noisePatterns_def lit_def js_def canonicalize_def)

lemma stamp_match:
  assumes st: "map canonicalize stamp = map canonicalize (js L)"
    and x: "\<forall>c \<in> set x. \<not> is_line_terminator c" and v: "v = [] \<or> is_line_terminator (hd v)"
  shows "rmatch (fixed (lit_cls L) @ [(Dot, Star)]) (stamp @ x @ v) = Some (length (stamp @ x))"
proof -
  have l: "length stamp = length L"
    using arg_cong [OF st, of length] by (simp add: js_def)
  have a: "list_all2 matches (lit_cls L) stamp" using st by (simp add: list_all2_lit)
  have "takeWhile (matches Dot) (x @ v) = x @ takeWhile (matches Dot) v"
    using x by (intro takeWhile_append2) simp
  moreover have "takeWhile (matches Dot) v = []" using v by (cases v) auto
  ultimately have "takeWhile (matches Dot) (x @ v) = x" by simp
  with l a show ?thesis by (simp add: rmatch_line lit_cls_def)
qed

text \<open>
  Claim C3, amended. The passes for the star-rating fragment (\<open>X.Y out of 5 stars\<close>
  with single digits X and Y), for the stamps \<open>Reviewed in India on ...\<close> and
  \<open>Reviewed in the United Arab Emirates on ...\<close> (through the end of the line; no other
  region), for \<open>Verified Purchase\<close>, for \<open>Helpful\<close> and for \<open>Report\<close> each cut out every
  occurrence of their pattern that stands in the text when the pass runs, whatever
  comes before and after it, comparing letters case-insensitively. The fragments named
  are occurrences of their patterns. The helpfulness-vote counts are left out of this
  statement.
\<close>

theorem C3_noise_cut_out:
  "(\<forall>p \<in> set (take 6 noisePatterns). \<forall>u w v.
      rmatch p (w @ v) = Some (length w) \<longrightarrow>
      replace_global p [] (u @ w @ v) = replace_global p [] u @ replace_global p [] v) \<and>
   (\<forall>a b v. is_digit a \<and> is_digit b \<longrightarrow>
      rmatch (noisePatterns ! 0) (a # 0x2E # b # js '' out of 5 stars'' @ v) = Some 18) \<and>
   (\<forall>x v. (\<forall>c \<in> set x. \<not> is_line_terminator c) \<and> (v = [] \<or> is_line_terminator (hd v)) \<longrightarrow>
      rmatch (noisePatterns ! 1) (js ''Reviewed in India on '' @ x @ v) = Some (21 + length x) \<and>
      rmatch (noisePatterns ! 2) (js ''Reviewed in the United Arab Emirates on '' @ x @ v)
        = Some (40 + length x)) \<and>
   (\<forall>v. rmatch (noisePatterns ! 3) (js ''Verified Purchase'' @ v) = Some 17)"
proof -
  have p1: "noisePatterns ! 1 = fixed (lit_cls ''Reviewed in India on '') @ [(Dot, Star)]"
    and p2: "noisePatterns ! 2
      = fixed (lit_cls ''Reviewed in the United Arab Emirates on '') @ [(Dot, Star)]"
    by (simp_all add: noisePatterns_def lit_fixed)
  have l1: "length (js ''Reviewed in India on '') = 21"
    and l2: "length (js ''Reviewed in the United Arab Emirates on '') = 40"
    by (simp_all add: js_def)
  have stamps: "rmatch (noisePatterns ! 1) (js ''Reviewed in India on '' @ x @ v) = Some (21 + length x) \<and>
      rmatch (noisePatterns ! 2) (js ''Reviewed in the United Arab Emirates on '' @ x @ v)
        = Some (40 + length x)"
    if "\<forall>c \<in> set x. \<not> is_line_terminator c" and "v = [] \<or> is_line_terminator (hd v)" for x v
  proof
    have "rmatch (noisePatterns ! 1) (js ''Reviewed in India on '' @ x @ v)
        = Some (length (js ''Reviewed in India on '' @ x))"
      unfolding p1 by (rule stamp_match [OF refl that])
    then show "rmatch (noisePatterns ! 1) (js ''Reviewed in India on '' @ x @ v) = Some (21 + length x)"
      by (simp only: length_append l1)
    have "rmatch (noisePatterns ! 2) (js ''Reviewed in the United Arab Emirates on '' @ x @ v)
        = Some (length (js ''Reviewed in the United Arab Emirates on '' @ x))"
      unfolding p2 by (rule stamp_match [OF refl that])
    then show "rmatch (noisePatterns ! 2) (js ''Reviewed in the United Arab Emirates on '' @ x @ v)
        = Some (40 + length x)"
      by (simp only: length_append l2)
  qed
  show ?thesis
    using cut_out_noise star_fragment stamps verified_fragment by blast
qed

theorem C3_noise_cut_out_witness:
  "replace_global (lit ''Verified Purchase'') []
      (js ''Nice '' @ js ''VERIFIED purchase'' @ js '' item'') = js ''Nice '' @ js '' item'' \<and>
   rmatch (noisePatterns ! 0) (js ''4.5 out of 5 stars'') = Some 18 \<and>
   rmatch (noisePatterns ! 1) (js ''Reviewed in India on 5 May 2020'') = Some 31"
proof -
  have m: "lit ''Verified Purchase'' \<in> set (take 6 noisePatterns)"
    by (simp add: noisePatterns_def)
  have h: "rmatch (lit ''Verified Purchase'') (js ''VERIFIED purchase'' @ js '' item'')
      = Some (length (js ''VERIFIED purchase''))"
    by code_simp
  have a: "replace_global (lit ''Verified Purchase'') [] (js ''Nice '') = js ''Nice ''"
    and b: "replace_global (lit ''Verified Purchase'') [] (js '' item'') = js '' item''"
    by code_simp+
  have d: "is_digit 0x34 \<and> is_digit 0x35" by (simp add: is_digit_def)
  have x: "(\<forall>c \<in> set (js ''5 May 2020''). \<not> is_line_terminator c) \<and>
      (([]::jsstring) = [] \<or> is_line_terminator (hd []))"
    by (simp add: js_def is_line_terminator_def)
  note T = C3_noise_cut_out
  from T m h have "replace_global (lit ''Verified Purchase'') []
      (js ''Nice '' @ js ''VERIFIED purchase'' @ js '' item'')
      = replace_global (lit ''Verified Purchase'') [] (js ''Nice '')
        @ replace_global (lit ''Verified Purchase'') [] (js '' item'')"
    by blast
  moreover from T d have "rmatch (noisePatterns ! 0) (0x34 # 0x2E # 0x35 # js '' out of 5 stars'' @ [])
      = Some 18" by blast
  moreover from T x have "rmatch (noisePatterns ! 1) (js ''Reviewed in India on '' @ js ''5 May 2020'' @ [])
      = Some (21 + length (js ''5 May 2020''))" by blast
  ultimately show ?thesis using a b by (simp add: js_def)
qed

text \<open>
  The claim as stated fails: a stamp with another region stays in the cleaned text, and
  of a vote count only the word \<open>helpful\<close> goes, since the pass for \<open>Helpful\<close> runs before
  the passes for the vote counts.
\<close>

theorem C3_counterexample:
  "cleanReviewText (js ''Reviewed in the United States on 5 May 2020'')
     = js ''Reviewed in the United States on 5 May 2020'' \<and>
   cleanReviewText (js ''12 people found this helpful'') = js ''12 people found this''"
  by code_simp

section \<open>The line filter and the re-join\<close>

lemma stripNoise_Nil: "stripNoise [] = []"
  by (simp add: stripNoise_def noisePatterns_def lit_def)

lemma clean_composition:
  "cleanReviewText s = trim (collapse_runs (join_sp (retained_lines (stripNoise s))))"
proof (cases "s = []")
  case True
  then show ?thesis
    by (simp add: cleanReviewText_def stripNoise_Nil retained_lines_def trim_def)
next
  case False
  have "keep_line = (\<lambda>l. length (trim l) > 15 \<and> 0x20 \<in> set (trim l))"
    by (rule ext) (simp add: keep_line_def Let_def)
  with False show ?thesis
    by (simp add: cleanReviewText_def retained_lines_def collapse_ws_runs Let_def)
qed

lemma clean_example:
  "cleanReviewText (js ''4.5 out of 5 stars'' @ 0x0A # js ''Verified Purchase'' @ 0x0A #
       js ''This product exceeded my expectations in every way possible.'')
     = js ''This product exceeded my expectations in every way possible.''"
  by code_simp

text \<open>
  Claim C8, amended. For every input, the cleaned text consists of the lines of the
  noise-stripped text whose trimmed text is longer than 15 and contains a space, in
  their order, joined by one space, with every run of two or more whitespace characters
  replaced by one space and whitespace trimmed at both ends; it is empty when no line
  is retained. A single whitespace character that is not a space (a tab, say) stays as
  it is. The three-line example of the specification gives its third line.
\<close>

theorem C8_clean_lines:
  "cleanReviewText s = trim (collapse_runs (join_sp (retained_lines (stripNoise s)))) \<and>
   cleanReviewText (js ''4.5 out of 5 stars'' @ 0x0A # js ''Verified Purchase'' @ 0x0A #
       js ''This product exceeded my expectations in every way possible.'')
     = js ''This product exceeded my expectations in every way possible.''"
  using clean_composition clean_example by blast

theorem C8_clean_lines_witness:
  "cleanReviewText (js ''Works well'' @ 0x09 # 0x09 # js ''and looks good'')
     = js ''Works well and looks good''"
proof -
  have "trim (collapse_runs (join_sp (retained_lines
          (stripNoise (js ''Works well'' @ 0x09 # 0x09 # js ''and looks good'')))))
      = js ''Works well and looks good''"
    by code_simp
  then show ?thesis
    using C8_clean_lines [of "js ''Works well'' @ 0x09 # 0x09 # js ''and looks good''"] by simp
qed

text \<open>
  The claim as stated fails on a line with a single tab: the cleaner keeps the tab,
  where collapsing every run of whitespace would give a space.
\<close>

theorem C8_single_tab_counterexample:
  "cleanReviewText (js ''This is a'' @ 0x09 # js ''good product overall'')
     = js ''This is a'' @ 0x09 # js ''good product overall'' \<and>
   clean_every_run (js ''This is a'' @ 0x09 # js ''good product overall'')
     = js ''This is a good product overall''"
  by code_simp

section \<open>Words that contain a noise word\<close>

lemma tail_copy:
  assumes ne: "ks \<noteq> []" and a: "\<not> matches (last ks) a"
  shows "replace_global (fixed ks) [] (u @ [a]) = replace_global (fixed ks) [] u @ [a]"
proof (induction u rule: length_induct)
  case (1 u)
  let ?P = "fixed ks" and ?n = "length ks"
  have n0: "0 < ?n" using ne by simp
  have sol: "solid ?P" using solid_fixed [OF ne, of "[]"] by simp
  have short: "\<not> list_all2 matches ks (x @ [a])" for x
  proof
    assume "list_all2 matches ks (x @ [a])"
    then have "list_all2 matches (butlast ks @ [last ks]) (x @ [a])" using ne by simp
    then have "matches (last ks) a"
      by (auto simp: list_all2_append2 list_all2_Cons2 dest: list_all2_lengthD)
    with a show False ..
  qed
  show ?case
  proof (cases u)
    case Nil
    have "rmatch ?P [a] = None"
    proof (cases "?n = 1")
      case True
      with short [of "[]"] show ?thesis by (simp add: rmatch_fixed)
    next
      case False
      with ne have "\<not> ?n \<le> length [a]" by (cases ks) auto
      then show ?thesis by (simp only: rmatch_fixed simp_thms if_False)
    qed
    with Nil sol show ?thesis by (simp add: solid_empty)
  next
    case (Cons c u')
    have lt': "length u' < length u" using Cons by simp
    note IH' = 1 [rule_format, OF lt']
    show ?thesis
    proof (cases "length u < ?n")
      case True
      then have x: "rmatch ?P u = None" by (simp add: rmatch_fixed)
      have "rmatch ?P (u @ [a]) = None"
      proof (cases "Suc (length u) = ?n")
        case True
        then have "take ?n (u @ [a]) = u @ [a]" by simp
        with short [of u] show ?thesis by (simp add: rmatch_fixed)
      next
        case False
        with True show ?thesis by (simp add: rmatch_fixed)
      qed
      with x Cons IH' show ?thesis by simp
    next
      case False
      then have eq: "rmatch ?P (u @ [a]) = rmatch ?P u" by (simp add: rmatch_fixed)
      show ?thesis
      proof (cases "rmatch ?P u")
        case None
        with eq Cons IH' show ?thesis by simp
      next
        case (Some m)
        then have m: "m = ?n" by (auto simp: rmatch_fixed split: if_splits)
        have d: "drop ?n (u @ [a]) = drop ?n u @ [a]" using False by simp
        have lt: "length (drop ?n u) < length u" using n0 Cons by simp
        have "replace_global ?P [] (drop ?n u @ [a]) = replace_global ?P [] (drop ?n u) @ [a]"
          by (rule 1 [rule_format, OF lt])
        with replace_match [of ?P u ?n] replace_match [of ?P "u @ [a]" ?n] Some eq m n0 d
        show ?thesis by simp
      qed
    qed
  qed
qed

lemma head_copy:
  assumes "ks \<noteq> []" and "\<not> matches (hd ks) a"
  shows "replace_global (fixed ks) [] (a # s) = a # replace_global (fixed ks) [] s"
proof -
  from assms have "rmatch (fixed ks) (a # s) = None"
    by (cases ks) (simp_all add: fixed_def)
  then show ?thesis by simp
qed

lemma helpful_cut:
  assumes "map canonicalize w = map canonicalize (js ''Helpful'')"
  shows "replace_global (lit ''Helpful'') [] (u @ w @ v)
       = replace_global (lit ''Helpful'') [] u @ replace_global (lit ''Helpful'') [] v"
  unfolding lit_fixed using assms
  by (intro cut_out_fixed border_free_helpful lit_cls_not_Nil) (simp_all add: list_all2_lit)

lemma report_cut:
  assumes "map canonicalize w = map canonicalize (js ''Report'')"
  shows "replace_global (lit ''Report'') [] (u @ w @ v)
       = replace_global (lit ''Report'') [] u @ replace_global (lit ''Report'') [] v"
  unfolding lit_fixed using assms
  by (intro cut_out_fixed border_free_report lit_cls_not_Nil) (simp_all add: list_all2_lit)

lemma helpful_un:
  "replace_global (lit ''Helpful'') [] (u @ js ''un'') = replace_global (lit ''Helpful'') [] u @ js ''un''"
proof -
  have ne: "lit_cls ''Helpful'' \<noteq> []" by (simp add: lit_cls_def)
  have l: "last (lit_cls ''Helpful'') = Lit 0x6C" by (simp add: lit_cls_def)
  have a: "\<not> matches (last (lit_cls ''Helpful'')) 0x75"
    and b: "\<not> matches (last (lit_cls ''Helpful'')) 0x6E"
    unfolding l by (simp_all add: canonicalize_def)
  have "replace_global (fixed (lit_cls ''Helpful'')) [] ((u @ [0x75]) @ [0x6E])
      = replace_global (fixed (lit_cls ''Helpful'')) [] (u @ [0x75]) @ [0x6E]"
    by (rule tail_copy [OF ne b])
  also have "replace_global (fixed (lit_cls ''Helpful'')) [] (u @ [0x75])
      = replace_global (fixed (lit_cls ''Helpful'')) [] u @ [0x75]"
    by (rule tail_copy [OF ne a])
  finally show ?thesis by (simp add: lit_fixed js_def)
qed

lemma report_ed:
  "replace_global (lit ''Report'') [] (js ''ed'' @ v) = js ''ed'' @ replace_global (lit ''Report'') [] v"
proof -
  have ne: "lit_cls ''Report'' \<noteq> []" by (simp add: lit_cls_def)
  have h: "hd (lit_cls ''Report'') = Lit 0x52" by (simp add: lit_cls_def)
  have a: "\<not> matches (hd (lit_cls ''Report'')) 0x65"
    and b: "\<not> matches (hd (lit_cls ''Report'')) 0x64"
    unfolding h by (simp_all add: canonicalize_def)
  have e: "js ''ed'' = [0x65, 0x64]" by (simp add: js_def)
  show ?thesis unfolding lit_fixed e
    by (simp only: append_Cons append_Nil head_copy [OF ne a] head_copy [OF ne b])
qed

lemma mutilated_example:
  "cleanReviewText (js ''I found the manual unhelpful and reported it'')
     = js ''I found the manual un and ed it''"
  by code_simp

text \<open>
  Claim C9, amended. The passes for \<open>Helpful\<close> and \<open>Report\<close> cut out every
  case-insensitive occurrence of the word in the text they are applied to, wherever it
  stands, also inside a content word: a text with \<open>unhelpful\<close> leaves the \<open>Helpful\<close> pass
  with \<open>un\<close> in its place, a text with \<open>reported\<close> leaves the \<open>Report\<close> pass with \<open>ed\<close> in
  its place, and what stands before and after is cleaned as if it stood alone. The line
  filter comes after: where the line is retained, the cleaned review shows the
  mutilated words, as \<open>I found the manual un and ed it\<close> does.
\<close>

theorem C9_words_mutilated:
  "(\<forall>u w v. map canonicalize w = map canonicalize (js ''Helpful'') \<longrightarrow>
      replace_global (lit ''Helpful'') [] (u @ w @ v)
        = replace_global (lit ''Helpful'') [] u @ replace_global (lit ''Helpful'') [] v \<and>
      replace_global (lit ''Helpful'') [] (u @ js ''un'' @ w @ v)
        = replace_global (lit ''Helpful'') [] u @ js ''un'' @ replace_global (lit ''Helpful'') [] v) \<and>
   (\<forall>u w v. map canonicalize w = map canonicalize (js ''Report'') \<longrightarrow>
      replace_global (lit ''Report'') [] (u @ w @ v)
        = replace_global (lit ''Report'') [] u @ replace_global (lit ''Report'') [] v \<and>
      replace_global (lit ''Report'') [] (u @ w @ js ''ed'' @ v)
        = replace_global (lit ''Report'') [] u @ js ''ed'' @ replace_global (lit ''Report'') [] v) \<and>
   cleanReviewText (js ''I found the manual unhelpful and reported it'')
     = js ''I found the manual un and ed it''"
proof -
  have h: "replace_global (lit ''Helpful'') [] (u @ js ''un'' @ w @ v)
      = replace_global (lit ''Helpful'') [] u @ js ''un'' @ replace_global (lit ''Helpful'') [] v"
    if "map canonicalize w = map canonicalize (js ''Helpful'')" for u w v
    using helpful_cut [OF that, of "u @ js ''un''" v] by (simp add: helpful_un)
  have r: "replace_global (lit ''Report'') [] (u @ w @ js ''ed'' @ v)
      = replace_global (lit ''Report'') [] u @ js ''ed'' @ replace_global (lit ''Report'') [] v"
    if "map canonicalize w = map canonicalize (js ''Report'')" for u w v
    using report_cut [OF that, of u "js ''ed'' @ v"] by (simp add: report_ed)
  from h r helpful_cut report_cut mutilated_example show ?thesis by blast
qed

theorem C9_words_mutilated_witness:
  "replace_global (lit ''Helpful'') [] (js ''so '' @ js ''un'' @ js ''HELPFUL'' @ js '' it was'')
     = js ''so un it was'' \<and>
   replace_global (lit ''Report'') [] (js ''I '' @ js ''report'' @ js ''ed'' @ js '' it'')
     = js ''I ed it''"
proof -
  have a: "map canonicalize (js ''HELPFUL'') = map canonicalize (js ''Helpful'')"
    and b: "map canonicalize (js ''report'') = map canonicalize (js ''Report'')"
    by (simp_all add: js_def canonicalize_def)
  have c: "replace_global (lit ''Helpful'') [] (js ''so '') = js ''so ''"
    and d: "replace_global (lit ''Helpful'') [] (js '' it was'') = js '' it was''"
    and e: "replace_global (lit ''Report'') [] (js ''I '') = js ''I ''"
    and f: "replace_global (lit ''Report'') [] (js '' it'') = js '' it''"
    by code_simp+
  note T = C9_words_mutilated
  from T a have "replace_global (lit ''Helpful'') [] (js ''so '' @ js ''un'' @ js ''HELPFUL'' @ js '' it was'')
      = replace_global (lit ''Helpful'') [] (js ''so '') @ js ''un''
        @ replace_global (lit ''Helpful'') [] (js '' it was'')"
    by blast
  moreover from T b have "replace_global (lit ''Report'') [] (js ''I '' @ js ''report'' @ js ''ed'' @ js '' it'')
      = replace_global (lit ''Report'') [] (js ''I '') @ js ''ed''
        @ replace_global (lit ''Report'') [] (js '' it'')"
    by blast
  ultimately show ?thesis using c d e f by (simp add: js_def)
qed

text \<open>
  The claim as stated fails for an input that is the word alone: the line is shorter
  than the line filter asks, and nothing is left to stand in its place.
\<close>

theorem C9_counterexample:
  "cleanReviewText (js ''unhelpful'') = [] \<and> cleanReviewText (js ''It was reported'') = []"
  by code_simp

end
